theory Spec2Isabelle
  imports Main
begin

section \<open>The host timer facility\<close>

text \<open>
  The debounce hooks are wired to the host's \<^verbatim>\<open>setTimeout\<close> and \<^verbatim>\<open>clearTimeout\<close>.
  The host is modelled by a clock in milliseconds, a counter of timer handles and the
  table of pending timers. An entry of the table is the handle, the time at which the
  timer is due and the payload of its callback. Handles are positive integers, as the
  HTML standard has them, so a handle is always truthy.

  The host does not take every delay as it is. The HTML standard declares the timeout
  as a signed 32-bit integer: the delay is reduced modulo 4294967296, and a result from
  2147483648 on, which reads as a negative number, counts as 0. So a delay below
  2147483648 ms is kept, and a delay of 2147483648 ms makes the timer run at once.
  Delays are whole numbers of milliseconds.
\<close>

record 'c host =
  now :: nat
  next_id :: nat
  timers :: "(nat \<times> nat \<times> 'c) list"

definition host_delay :: "nat \<Rightarrow> nat" where
  "host_delay delay =
     (let m = delay mod 4294967296 in if 2147483648 \<le> m then 0 else m)"

definition setTimeout :: "'c \<Rightarrow> nat \<Rightarrow> ('c, 'm) host_scheme \<Rightarrow> nat \<times> ('c, 'm) host_scheme" where
  "setTimeout cb delay h =
     (next_id h,
      h\<lparr>next_id := Suc (next_id h),
        timers := timers h @ [(next_id h, now h + host_delay delay, cb)]\<rparr>)"

definition clearTimeout :: "nat \<Rightarrow> ('c, 'm) host_scheme \<Rightarrow> ('c, 'm) host_scheme" where
  "clearTimeout tid h = h\<lparr>timers := filter (\<lambda>(i, due, cb). i \<noteq> tid) (timers h)\<rparr>"

text \<open>
  When the clock reaches \<open>t\<close>, the timers due by then run, earliest first, and leave the
  table.
\<close>

definition due_timers :: "nat \<Rightarrow> (nat \<times> nat \<times> 'c) list \<Rightarrow> (nat \<times> nat \<times> 'c) list" where
  "due_timers t ts = sort_key (\<lambda>(i, due, cb). due) (filter (\<lambda>(i, due, cb). due \<le> t) ts)"

definition waiting_timers :: "nat \<Rightarrow> (nat \<times> nat \<times> 'c) list \<Rightarrow> (nat \<times> nat \<times> 'c) list" where
  "waiting_timers t ts = filter (\<lambda>(i, due, cb). \<not> due \<le> t) ts"

text \<open>The default of a parameter declared as \<^verbatim>\<open>delay = 500\<close>: an omitted argument is \<open>None\<close>.\<close>

definition delay_or_default :: "nat option \<Rightarrow> nat" where
  "delay_or_default d = (case d of None \<Rightarrow> 500 | Some n \<Rightarrow> n)"

section \<open>useDebouncedValue\<close>

text \<open>
  \<^verbatim>\<open>const [debouncedValue, setDebouncedValue] = useState();\<close> starts undefined, which is
  \<open>None\<close>. The effect has the dependencies \<^verbatim>\<open>[value, delay]\<close>: \<open>effect_deps\<close> holds the
  dependencies of its last run and \<open>effect_cleanup\<close> the \<^verbatim>\<open>timerId\<close> that the cleanup
  closure of that run captured. The payload of a timer is the value that its callback
  passes to \<^verbatim>\<open>setDebouncedValue\<close>. Equality of HOL values stands for the comparison of
  dependencies by the framework.
\<close>

record 'a dv_state = "'a host" +
  debouncedValue :: "'a option"
  effect_deps :: "('a \<times> nat) option"
  effect_cleanup :: "nat option"

definition dv_init :: "nat \<Rightarrow> 'a dv_state" where
  "dv_init t0 =
     \<lparr>now = t0, next_id = 1, timers = [],
      debouncedValue = None, effect_deps = None, effect_cleanup = None\<rparr>"

text \<open>
  One call of the hook during a render, with the effect run at once when a dependency
  changed: the cleanup of the previous run first, then the new timer.
\<close>

definition useDebouncedValue :: "'a \<Rightarrow> nat option \<Rightarrow> 'a dv_state \<Rightarrow> 'a dv_state" where
  "useDebouncedValue val delay_arg s =
     (let delay = delay_or_default delay_arg in
      if effect_deps s = Some (val, delay) then s
      else
        let s1 = (case effect_cleanup s of None \<Rightarrow> s | Some tid \<Rightarrow> clearTimeout tid s);
            (timerId, s2) = setTimeout val delay s1
        in s2\<lparr>effect_deps := Some (val, delay), effect_cleanup := Some timerId\<rparr>)"

text \<open>Time passes by \<open>dt\<close> ms; each timer that falls due runs \<^verbatim>\<open>setDebouncedValue(value)\<close>.\<close>

definition dv_fire :: "'a dv_state \<Rightarrow> nat \<times> nat \<times> 'a \<Rightarrow> 'a dv_state" where
  "dv_fire s tm = (case tm of (i, due, v) \<Rightarrow> s\<lparr>debouncedValue := Some v\<rparr>)"

definition dv_elapse :: "nat \<Rightarrow> 'a dv_state \<Rightarrow> 'a dv_state" where
  "dv_elapse dt s =
     (let t = now s + dt in
      (foldl dv_fire s (due_timers t (timers s)))
        \<lparr>now := t, timers := waiting_timers t (timers s)\<rparr>)"

datatype 'a dv_event = Render 'a "nat option" | Elapse nat

fun dv_step :: "'a dv_event \<Rightarrow> 'a dv_state \<Rightarrow> 'a dv_state" where
  "dv_step (Render v d) s = useDebouncedValue v d s"
| "dv_step (Elapse dt) s = dv_elapse dt s"

fun dv_run :: "'a dv_event list \<Rightarrow> 'a dv_state \<Rightarrow> 'a dv_state" where
  "dv_run [] s = s"
| "dv_run (e # es) s = dv_run es (dv_step e s)"

text \<open>The values that a step passes to \<^verbatim>\<open>setDebouncedValue\<close>, in order.\<close>

fun dv_emits :: "'a dv_event \<Rightarrow> 'a dv_state \<Rightarrow> 'a list" where
  "dv_emits (Render v d) s = []"
| "dv_emits (Elapse dt) s = map (\<lambda>(i, due, v). v) (due_timers (now s + dt) (timers s))"

text \<open>The time that passes in a trace.\<close>

fun dv_elapsed :: "'a dv_event list \<Rightarrow> nat" where
  "dv_elapsed [] = 0"
| "dv_elapsed (Render v d # es) = dv_elapsed es"
| "dv_elapsed (Elapse dt # es) = dt + dv_elapsed es"

text \<open>
  A stretch of a trace is quiet for the input \<open>(v, d)\<close> when it brings no newer input:
  every render in it passes the same value and the same delay.
\<close>

fun dv_quiet :: "'a \<Rightarrow> nat \<Rightarrow> 'a dv_event list \<Rightarrow> bool" where
  "dv_quiet v d [] = True"
| "dv_quiet v d (Render v' d' # es) = (v' = v \<and> delay_or_default d' = d \<and> dv_quiet v d es)"
| "dv_quiet v d (Elapse dt # es) = dv_quiet v d es"


text \<open>
  The invariant of the hook along a trace \<open>es\<close>: before the first render nothing is
  pending; afterwards the dependencies are those of the last render that changed them,
  the trace has been quiet since, and the only timer that can be pending is the one of
  that render, held by the cleanup.
\<close>

definition dv_inv :: "'a dv_event list \<Rightarrow> 'a dv_state \<Rightarrow> bool" where
  "dv_inv es s \<longleftrightarrow>
     (effect_deps s = None \<longrightarrow> timers s = []) \<and>
     (\<forall>v d. effect_deps s = Some (v, d) \<longrightarrow>
        (\<exists>pre dopt mid. es = pre @ Render v dopt # mid \<and> delay_or_default dopt = d \<and>
           dv_quiet v d mid \<and>
           (timers s = [] \<or>
            (\<exists>tid due. timers s = [(tid, due, v)] \<and> effect_cleanup s = Some tid \<and>
               due + dv_elapsed mid = now s + host_delay d))))"

section \<open>useDebouncedFunction\<close>

text \<open>
  \<^verbatim>\<open>timeoutRef = useRef(null)\<close> holds the handle of the last timer, \<open>None\<close> for
  \<^verbatim>\<open>null\<close>. The wrapped function \<^verbatim>\<open>fn\<close> belongs to the caller: the model keeps it
  opaque and records each of its invocations in \<open>invoked\<close>, with the time at which the
  timer ran and the arguments passed. The payload of a timer is the pair of \<^verbatim>\<open>fn\<close> and
  \<^verbatim>\<open>args\<close> that its callback closes over.
\<close>

record ('f, 'a) df_state = "('f \<times> 'a list) host" +
  timeoutRef :: "nat option"
  invoked :: "(nat \<times> 'f \<times> 'a list) list"

definition df_init :: "nat \<Rightarrow> ('f, 'a) df_state" where
  "df_init t0 = \<lparr>now = t0, next_id = 1, timers = [], timeoutRef = None, invoked = []\<rparr>"

definition debouncedFunction ::
  "'f \<Rightarrow> nat \<Rightarrow> 'a list \<Rightarrow> ('f, 'a) df_state \<Rightarrow> ('f, 'a) df_state" where
  "debouncedFunction fn delay args s =
     (let s1 = (case timeoutRef s of
                  None \<Rightarrow> s
                | Some tid \<Rightarrow> if tid \<noteq> 0 then clearTimeout tid s else s);
          (tid, s2) = setTimeout (fn, args) delay s1
      in s2\<lparr>timeoutRef := Some tid\<rparr>)"

text \<open>The hook returns the closure over \<^verbatim>\<open>fn\<close> and \<^verbatim>\<open>delay\<close>.\<close>

definition useDebouncedFunction ::
  "'f \<Rightarrow> nat option \<Rightarrow> 'a list \<Rightarrow> ('f, 'a) df_state \<Rightarrow> ('f, 'a) df_state" where
  "useDebouncedFunction fn delay_arg = debouncedFunction fn (delay_or_default delay_arg)"

definition df_fire :: "('f, 'a) df_state \<Rightarrow> nat \<times> nat \<times> 'f \<times> 'a list \<Rightarrow> ('f, 'a) df_state" where
  "df_fire s tm = (case tm of (i, due, fn, args) \<Rightarrow> s\<lparr>invoked := invoked s @ [(due, fn, args)]\<rparr>)"

definition df_wait :: "nat \<Rightarrow> ('f, 'a) df_state \<Rightarrow> ('f, 'a) df_state" where
  "df_wait dt s =
     (let t = now s + dt in
      (foldl df_fire s (due_timers t (timers s)))
        \<lparr>now := t, timers := waiting_timers t (timers s)\<rparr>)"

datatype ('f, 'a) df_event = Invoke 'f "nat option" "'a list" | Wait nat

fun df_step :: "('f, 'a) df_event \<Rightarrow> ('f, 'a) df_state \<Rightarrow> ('f, 'a) df_state" where
  "df_step (Invoke fn d args) s = useDebouncedFunction fn d args s"
| "df_step (Wait dt) s = df_wait dt s"

fun df_run :: "('f, 'a) df_event list \<Rightarrow> ('f, 'a) df_state \<Rightarrow> ('f, 'a) df_state" where
  "df_run [] s = s"
| "df_run (e # es) s = df_run es (df_step e s)"

text \<open>
  A burst of calls with the delay \<open>d\<close>: a first call, then further calls, each after a
  gap measured from the call before it.
\<close>

fun df_burst :: "nat option \<Rightarrow> 'f \<times> 'a list \<Rightarrow> (nat \<times> 'f \<times> 'a list) list \<Rightarrow> ('f, 'a) df_event list" where
  "df_burst d c [] = [Invoke (fst c) d (snd c)]"
| "df_burst d c ((gap, c') # cs) = Invoke (fst c) d (snd c) # Wait gap # df_burst d c' cs"

fun df_gaps :: "(nat \<times> 'c) list \<Rightarrow> nat" where
  "df_gaps [] = 0"
| "df_gaps ((gap, c) # cs) = gap + df_gaps cs"

fun df_last_call :: "'c \<Rightarrow> (nat \<times> 'c) list \<Rightarrow> 'c" where
  "df_last_call c [] = c"
| "df_last_call c ((gap, c') # cs) = df_last_call c' cs"

fun df_gaps_below :: "nat \<Rightarrow> (nat \<times> 'c) list \<Rightarrow> bool" where
  "df_gaps_below d [] = True"
| "df_gaps_below d ((gap, c) # cs) = (gap < d \<and> df_gaps_below d cs)"

text \<open>The invariant of the hook: the only timer that can be pending is the one in the ref.\<close>

definition df_inv :: "('f, 'a) df_state \<Rightarrow> bool" where
  "df_inv s \<longleftrightarrow>
     0 < next_id s \<and>
     (timers s = [] \<or> (\<exists>tid due c. timers s = [(tid, due, c)] \<and> timeoutRef s = Some tid \<and> tid \<noteq> 0))"

section \<open>useCustomFetcher\<close>

text \<open>
  What \<^verbatim>\<open>await fetch(url)\<close> can give: a rejection with an error message, or a response.
  A response has its HTTP status and the outcome of \<^verbatim>\<open>res.json()\<close>: a rejection with a
  message or the parsed body. \<^verbatim>\<open>res.ok\<close> is the Fetch standard's: the status is in
  the range 200 to 299.
\<close>

datatype 'd response = Response (status: nat) (json: "string + 'd")

datatype 'd fetch_result = Rejects string | Resolves "'d response"

definition ok :: "'d response \<Rightarrow> bool" where
  "ok res \<longleftrightarrow> 200 \<le> status res \<and> status res \<le> 299"

text \<open>The decimal digits of a number, as the template literal prints the status.\<close>

definition digit_char :: "nat \<Rightarrow> char" where
  "digit_char n = ''0123456789'' ! n"

fun string_of_nat :: "nat \<Rightarrow> string" where
  "string_of_nat n =
     (if n < 10 then [digit_char n] else string_of_nat (n div 10) @ [digit_char (n mod 10)])"

declare string_of_nat.simps [simp del]

text \<open>
  The four state cells of the hook, the dependency \<^verbatim>\<open>[url]\<close> of the last run of the
  effect, and the URLs of the requests in flight.
\<close>

record 'd fetcher_state =
  isLoading :: bool
  data :: "'d option"
  isError :: bool
  error :: string
  effect_url :: "string option"
  inflight :: "string list"

definition fetcher_init :: "'d fetcher_state" where
  "fetcher_init =
     \<lparr>isLoading = False, data = None, isError = False, error = [],
      effect_url = None, inflight = []\<rparr>"

definition reset :: "'d fetcher_state \<Rightarrow> 'd fetcher_state" where
  "reset s = s\<lparr>isError := False, error := []\<rparr>"

text \<open>\<^verbatim>\<open>fetchData\<close> up to its first \<^verbatim>\<open>await\<close>: the request is issued.\<close>

definition fetchData_begin :: "string \<Rightarrow> 'd fetcher_state \<Rightarrow> 'd fetcher_state" where
  "fetchData_begin url s = (reset s)\<lparr>isLoading := True, inflight := inflight s @ [url]\<rparr>"

text \<open>The body of the \<^verbatim>\<open>try\<close> block: \<open>Inl\<close> the message of the error thrown, \<open>Inr\<close> the data.\<close>

definition try_body :: "'d fetch_result \<Rightarrow> string + 'd" where
  "try_body r =
     (case r of
        Rejects msg \<Rightarrow> Inl msg
      | Resolves res \<Rightarrow>
          if \<not> ok res then Inl (''HTTP error! status: '' @ string_of_nat (status res))
          else json res)"

text \<open>The rest of \<^verbatim>\<open>fetchData\<close>, run when the request settles with \<open>r\<close>.\<close>

definition fetchData_settle :: "'d fetch_result \<Rightarrow> 'd fetcher_state \<Rightarrow> 'd fetcher_state" where
  "fetchData_settle r s =
     (case try_body r of
        Inr d \<Rightarrow> s\<lparr>data := Some d\<rparr>
      | Inl msg \<Rightarrow> s\<lparr>isError := True, error := msg\<rparr>)
     \<lparr>isLoading := False\<rparr>"

text \<open>One call of the hook during a render: the effect runs when \<^verbatim>\<open>url\<close> changed.\<close>

definition useCustomFetcher :: "string \<Rightarrow> 'd fetcher_state \<Rightarrow> 'd fetcher_state" where
  "useCustomFetcher url s =
     (if effect_url s = Some url then s
      else fetchData_begin url (s\<lparr>effect_url := Some url\<rparr>))"

text \<open>
  The events of a fetcher: a render with a URL, and the settling of the request at
  position \<open>i\<close> among those in flight, in any order.
\<close>

datatype 'd fetcher_event = Fetcher_render string | Fetch_settles nat "'d fetch_result"

fun fetcher_step :: "'d fetcher_event \<Rightarrow> 'd fetcher_state \<Rightarrow> 'd fetcher_state" where
  "fetcher_step (Fetcher_render url) s = useCustomFetcher url s"
| "fetcher_step (Fetch_settles i r) s =
     (if i < length (inflight s)
      then (fetchData_settle r s)\<lparr>inflight := take i (inflight s) @ drop (Suc i) (inflight s)\<rparr>
      else s)"

fun fetcher_run :: "'d fetcher_event list \<Rightarrow> 'd fetcher_state \<Rightarrow> 'd fetcher_state" where
  "fetcher_run [] s = s"
| "fetcher_run (e # es) s = fetcher_run es (fetcher_step e s)"

text \<open>
  The URL input as the trace alone gives it: the URL passed by the last render of the
  trace, or \<open>prev\<close> when the trace has no render.
\<close>

fun url_after :: "string option \<Rightarrow> 'd fetcher_event list \<Rightarrow> string option" where
  "url_after prev [] = prev"
| "url_after prev (Fetcher_render url # es) = url_after (Some url) es"
| "url_after prev (Fetch_settles i r # es) = url_after prev es"

text \<open>The number of renders of a trace that pass another URL than the render before.\<close>

fun url_changes :: "string option \<Rightarrow> 'd fetcher_event list \<Rightarrow> nat" where
  "url_changes prev [] = 0"
| "url_changes prev (Fetcher_render url # es) =
     (if prev = Some url then 0 else 1) + url_changes (Some url) es"
| "url_changes prev (Fetch_settles i r # es) = url_changes prev es"

text \<open>
  The number of requests that the hook issues along a trace: each step counts for as
  many requests as it adds to those in flight.
\<close>

fun fetches_begun :: "'d fetcher_event list \<Rightarrow> 'd fetcher_state \<Rightarrow> nat" where
  "fetches_begun [] s = 0"
| "fetches_begun (e # es) s =
     (length (inflight (fetcher_step e s)) - length (inflight s))
       + fetches_begun es (fetcher_step e s)"

section \<open>The form state controller\<close>

text \<open>
  The source of the form hook (\<^verbatim>\<open>useForm.jsx\<close>, exported by \<^verbatim>\<open>index.js\<close>) is not among
  the files at hand, so the controller is modelled from the specification, sections 3
  to 5.
\<close>

text \<open>
  Modelled from the spec: the data of the missing \<^verbatim>\<open>useForm\<close>. A mapping from field names
  to values is kept in the order of its fields, which the submit-time validation
  follows. A validator maps a candidate value to \<^verbatim>\<open>{isValid, errorMessage}\<close>, and the
  validators are a mapping from field names, possibly without an entry for a field.
  \<^verbatim>\<open>onSubmit\<close> completes or fails.
\<close>

type_synonym field_values = "(string \<times> string) list"

record validation =
  isValid :: bool
  errorMessage :: string

type_synonym validations = "string \<Rightarrow> (string \<Rightarrow> validation) option"

datatype submit_outcome = Fulfilled | Raised string

text \<open>
  Modelled from the spec: the state of \<^verbatim>\<open>useForm\<close>, whose source is missing. The spec
  distinguishes a copy of an object from a reference to it, so objects live in a store:
  \<open>store\<close> maps a reference to the object it holds, \<open>initial_ref\<close> is the stored
  \<^verbatim>\<open>initialValues\<close> and \<open>values_ref\<close> the object that \<^verbatim>\<open>values\<close> refers to. \<open>errors\<close>
  maps a field name to its message or to absent. \<open>submitted\<close> records the arguments of
  each invocation of \<^verbatim>\<open>onSubmit\<close>, \<open>pending\<close> counts the invocations that have not
  settled, and \<open>uncaught\<close> the failures of \<^verbatim>\<open>onSubmit\<close>, which the controller lets
  through.
\<close>

record form_state =
  store :: "nat \<Rightarrow> field_values option"
  next_ref :: nat
  initial_ref :: nat
  values_ref :: nat
  errors :: "string \<Rightarrow> string option"
  isSubmitting :: bool
  submitted :: "field_values list"
  pending :: nat
  uncaught :: "string list"

text \<open>
  Modelled from the spec: the objects that \<^verbatim>\<open>values\<close> and the stored \<^verbatim>\<open>initialValues\<close> of
  the missing \<^verbatim>\<open>useForm\<close> refer to.
\<close>

definition deref :: "form_state \<Rightarrow> nat \<Rightarrow> field_values" where
  "deref s r = (case store s r of None \<Rightarrow> [] | Some obj \<Rightarrow> obj)"

definition form_values :: "form_state \<Rightarrow> field_values" where
  "form_values s = deref s (values_ref s)"

definition initialValues :: "form_state \<Rightarrow> field_values" where
  "initialValues s = deref s (initial_ref s)"

text \<open>
  Modelled from the spec: the construction of \<^verbatim>\<open>useForm\<close>, whose source is missing.
  \<^verbatim>\<open>values\<close> is initialised from \<^verbatim>\<open>initialValues\<close>; since no edit may reach the stored
  initial values, it starts as an object of its own.
\<close>

definition useForm :: "field_values \<Rightarrow> form_state" where
  "useForm init =
     \<lparr>store = (\<lambda>r. if r = 0 \<or> r = 1 then Some init else None),
      next_ref = 2, initial_ref = 0, values_ref = 1,
      errors = (\<lambda>f. None), isSubmitting = False,
      submitted = [], pending = 0, uncaught = []\<rparr>"

text \<open>
  Modelled from the spec: \<^verbatim>\<open>handleChange\<close> of the missing \<^verbatim>\<open>useForm\<close> sets
  \<^verbatim>\<open>values[fieldName] = newValue\<close>, in the object that \<^verbatim>\<open>values\<close> refers to; an unknown
  field name is a no-op, so that no field is added.
\<close>

definition set_field :: "string \<Rightarrow> string \<Rightarrow> field_values \<Rightarrow> field_values" where
  "set_field f v obj = map (\<lambda>(k, x). if k = f then (k, v) else (k, x)) obj"

definition handleChange :: "string \<Rightarrow> string \<Rightarrow> form_state \<Rightarrow> form_state" where
  "handleChange f v s =
     s\<lparr>store := (store s)(values_ref s := Some (set_field f v (form_values s)))\<rparr>"

text \<open>
  Modelled from the spec: one validation of a field, for the missing \<^verbatim>\<open>useForm\<close>. A
  field without a validator, or without a current value, is left alone; an invalid
  value sets the field's error to the validator's message, a valid one clears it.
\<close>

definition validate_field ::
  "validations \<Rightarrow> field_values \<Rightarrow> string \<Rightarrow> (string \<Rightarrow> string option) \<Rightarrow> (string \<Rightarrow> string option) \<times> bool" where
  "validate_field vs vals f errs =
     (case vs f of
        None \<Rightarrow> (errs, True)
      | Some validator \<Rightarrow>
          (case map_of vals f of
             None \<Rightarrow> (errs, True)
           | Some v \<Rightarrow>
               let r = validator v in
               if isValid r then (errs(f := None), True)
               else (errs(f := Some (errorMessage r)), False)))"

text \<open>Modelled from the spec: \<^verbatim>\<open>handleBlur\<close> and \<^verbatim>\<open>handleFocus\<close> of the missing \<^verbatim>\<open>useForm\<close>.\<close>

definition handleBlur :: "validations \<Rightarrow> string \<Rightarrow> form_state \<Rightarrow> form_state" where
  "handleBlur vs f s = s\<lparr>errors := fst (validate_field vs (form_values s) f (errors s))\<rparr>"

definition handleFocus :: "string \<Rightarrow> form_state \<Rightarrow> form_state" where
  "handleFocus f s = s\<lparr>errors := (errors s)(f := None)\<rparr>"

text \<open>
  Modelled from the spec: the validation that \<^verbatim>\<open>handleSubmit\<close> of the missing
  \<^verbatim>\<open>useForm\<close> runs, over the fields in the order of \<^verbatim>\<open>initialValues\<close>. The result is
  the new \<open>errors\<close> and whether every field passed.
\<close>

fun validate_fields ::
  "validations \<Rightarrow> field_values \<Rightarrow> string list \<Rightarrow> (string \<Rightarrow> string option) \<Rightarrow> (string \<Rightarrow> string option) \<times> bool" where
  "validate_fields vs vals [] errs = (errs, True)"
| "validate_fields vs vals (f # fs) errs =
     (let (errs1, ok1) = validate_field vs vals f errs;
          (errs2, ok2) = validate_fields vs vals fs errs1
      in (errs2, ok1 \<and> ok2))"

text \<open>
  Modelled from the spec: \<^verbatim>\<open>handleSubmit\<close> of the missing \<^verbatim>\<open>useForm\<close>, up to the
  point where it awaits \<^verbatim>\<open>onSubmit\<close>. If a field fails, the errors are set and
  nothing else happens; otherwise \<^verbatim>\<open>isSubmitting\<close> becomes true and \<^verbatim>\<open>onSubmit\<close> is
  invoked with the current values.
\<close>

definition handleSubmit :: "validations \<Rightarrow> form_state \<Rightarrow> form_state" where
  "handleSubmit vs s =
     (let (errs, passed) =
            validate_fields vs (form_values s) (map fst (initialValues s)) (errors s)
      in if \<not> passed then s\<lparr>errors := errs\<rparr>
         else s\<lparr>errors := errs, isSubmitting := True,
                submitted := submitted s @ [form_values s], pending := Suc (pending s)\<rparr>)"

text \<open>
  Modelled from the spec: the rest of \<^verbatim>\<open>handleSubmit\<close> of the missing \<^verbatim>\<open>useForm\<close>, run
  when \<^verbatim>\<open>onSubmit\<close> completes: \<^verbatim>\<open>isSubmitting\<close> is released whether \<^verbatim>\<open>onSubmit\<close>
  succeeded or raised, and a failure is passed on, not caught.
\<close>

definition onSubmit_settled :: "submit_outcome \<Rightarrow> form_state \<Rightarrow> form_state" where
  "onSubmit_settled outcome s =
     (case outcome of
        Fulfilled \<Rightarrow> s\<lparr>isSubmitting := False, pending := pending s - 1\<rparr>
      | Raised msg \<Rightarrow>
          s\<lparr>isSubmitting := False, pending := pending s - 1, uncaught := uncaught s @ [msg]\<rparr>)"

text \<open>
  Modelled from the spec: \<^verbatim>\<open>resetFields\<close> of the missing \<^verbatim>\<open>useForm\<close>: \<^verbatim>\<open>values\<close>
  becomes a fresh copy of the stored initial values and \<^verbatim>\<open>errors\<close> is emptied.
\<close>

definition resetFields :: "form_state \<Rightarrow> form_state" where
  "resetFields s =
     s\<lparr>store := (store s)(next_ref s := Some (initialValues s)),
       values_ref := next_ref s, next_ref := Suc (next_ref s),
       errors := (\<lambda>f. None)\<rparr>"

text \<open>
  Modelled from the spec: the events of a form, whose source \<^verbatim>\<open>useForm\<close> is missing.
  \<open>Settled\<close> is the completion of a pending \<^verbatim>\<open>onSubmit\<close>; with none pending there is
  nothing to complete. \<open>Reset\<close> is a call of \<^verbatim>\<open>resetFields\<close>, by \<^verbatim>\<open>onSubmit\<close> or by the
  caller.
\<close>

datatype form_event =
  Change string string | Blur string | Focus string | Submit | Settled submit_outcome | Reset

fun form_step :: "validations \<Rightarrow> form_event \<Rightarrow> form_state \<Rightarrow> form_state" where
  "form_step vs (Change f v) s = handleChange f v s"
| "form_step vs (Blur f) s = handleBlur vs f s"
| "form_step vs (Focus f) s = handleFocus f s"
| "form_step vs Submit s = handleSubmit vs s"
| "form_step vs (Settled outcome) s = (if pending s = 0 then s else onSubmit_settled outcome s)"
| "form_step vs Reset s = resetFields s"

fun form_run :: "validations \<Rightarrow> form_event list \<Rightarrow> form_state \<Rightarrow> form_state" where
  "form_run vs [] s = s"
| "form_run vs (e # es) s = form_run vs es (form_step vs e s)"

text \<open>
  Modelled from the spec: the use of the missing \<^verbatim>\<open>useForm\<close> that section 5 of the spec
  expects of its caller: no submit while one is in flight, and a completion only of a
  submit in flight.
\<close>

fun form_sequential :: "validations \<Rightarrow> form_event list \<Rightarrow> form_state \<Rightarrow> bool" where
  "form_sequential vs [] s = True"
| "form_sequential vs (e # es) s =
     ((case e of Submit \<Rightarrow> pending s = 0 | Settled outcome \<Rightarrow> 0 < pending s | _ \<Rightarrow> True)
      \<and> form_sequential vs es (form_step vs e s))"

text \<open>
  Modelled from the spec: the invariants of the state of the missing \<^verbatim>\<open>useForm\<close>. The
  stored initial values are in place, \<^verbatim>\<open>values\<close> is an object of its own with exactly
  the fields of the initial values; and in sequential use at most one submit is in
  flight, with \<^verbatim>\<open>isSubmitting\<close> saying whether one is.
\<close>

definition form_inv :: "field_values \<Rightarrow> form_state \<Rightarrow> bool" where
  "form_inv init s \<longleftrightarrow>
     initial_ref s < next_ref s \<and> values_ref s < next_ref s \<and>
     values_ref s \<noteq> initial_ref s \<and> store s (initial_ref s) = Some init \<and>
     (\<exists>obj. store s (values_ref s) = Some obj \<and> map fst obj = map fst init)"

definition submit_inv :: "form_state \<Rightarrow> bool" where
  "submit_inv s \<longleftrightarrow> pending s \<le> 1 \<and> (isSubmitting s \<longleftrightarrow> pending s = 1)"

text \<open>
  The validators of the README's example form, with the pattern of the e-mail address
  reduced to the presence of \<^verbatim>\<open>@\<close>.
\<close>

definition example_validations :: validations where
  "example_validations f =
     (if f = ''username''
      then Some (\<lambda>v. \<lparr>isValid = (v \<noteq> []), errorMessage = ''Username is required''\<rparr>)
      else if f = ''email''
      then Some (\<lambda>v. \<lparr>isValid = (CHR ''@'' \<in> set v), errorMessage = ''Email is invalid''\<rparr>)
      else None)"


section \<open>Properties of useDebouncedValue\<close>

lemma dv_run_snoc: "dv_run (es @ [e]) s = dv_step e (dv_run es s)"
  by (induction es arbitrary: s) simp_all

lemma dv_elapsed_snoc_Elapse: "dv_elapsed (es @ [Elapse dt]) = dv_elapsed es + dt"
  by (induction es rule: dv_elapsed.induct) simp_all

lemma dv_elapsed_snoc_Render: "dv_elapsed (es @ [Render v d]) = dv_elapsed es"
  by (induction es rule: dv_elapsed.induct) simp_all

lemma dv_quiet_snoc_Elapse: "dv_quiet v d (es @ [Elapse dt]) = dv_quiet v d es"
  by (induction v d es rule: dv_quiet.induct) simp_all

lemma dv_quiet_snoc_Render:
  "dv_quiet v d (es @ [Render v' d']) = (dv_quiet v d es \<and> v' = v \<and> delay_or_default d' = d)"
  by (induction v d es rule: dv_quiet.induct) auto

lemma useDebouncedValue_same:
  "effect_deps s = Some (v, delay_or_default d) \<Longrightarrow> useDebouncedValue v d s = s"
  by (simp add: useDebouncedValue_def)

lemma useDebouncedValue_change:
  assumes "effect_deps s \<noteq> Some (v, delay_or_default d)"
    and "timers s = [] \<or> (\<exists>tid due w. timers s = [(tid, due, w)] \<and> effect_cleanup s = Some tid)"
  shows "timers (useDebouncedValue v d s) =
           [(next_id s, now s + host_delay (delay_or_default d), v)]"
    and "effect_cleanup (useDebouncedValue v d s) = Some (next_id s)"
    and "effect_deps (useDebouncedValue v d s) = Some (v, delay_or_default d)"
    and "now (useDebouncedValue v d s) = now s"
    and "debouncedValue (useDebouncedValue v d s) = debouncedValue s"
  using assms
  by (auto simp: useDebouncedValue_def setTimeout_def clearTimeout_def Let_def
      split: option.splits)

lemma dv_elapse_frame:
  "now (dv_elapse dt s) = now s + dt"
  "effect_deps (dv_elapse dt s) = effect_deps s"
  "effect_cleanup (dv_elapse dt s) = effect_cleanup s"
proof -
  have a: "\<And>ts. effect_deps (foldl dv_fire s ts) = effect_deps s
        \<and> effect_cleanup (foldl dv_fire s ts) = effect_cleanup s"
    subgoal for ts by (induction ts arbitrary: s) (auto simp: dv_fire_def)
    done
  show "now (dv_elapse dt s) = now s + dt" by (simp add: dv_elapse_def Let_def)
  show "effect_deps (dv_elapse dt s) = effect_deps s" by (simp add: dv_elapse_def Let_def a)
  show "effect_cleanup (dv_elapse dt s) = effect_cleanup s" by (simp add: dv_elapse_def Let_def a)
qed

lemma dv_elapse_timers_single:
  "timers s = [(tid, due, v)] \<Longrightarrow>
   timers (dv_elapse dt s) = (if due \<le> now s + dt then [] else [(tid, due, v)])"
  by (simp add: dv_elapse_def Let_def waiting_timers_def)

lemma dv_elapse_timers_none: "timers s = [] \<Longrightarrow> timers (dv_elapse dt s) = []"
  by (simp add: dv_elapse_def Let_def waiting_timers_def)

lemma dv_inv_pending: "dv_inv es s \<Longrightarrow>
   timers s = [] \<or> (\<exists>tid due w. timers s = [(tid, due, w)] \<and> effect_cleanup s = Some tid)"
  by (cases "effect_deps s") (auto simp: dv_inv_def)

lemma dv_invI:
  assumes "effect_deps s = Some (v, d)" and "es = pre @ Render v dopt # mid"
    and "delay_or_default dopt = d" and "dv_quiet v d mid"
    and "timers s = [] \<or> (\<exists>tid due. timers s = [(tid, due, v)] \<and>
       effect_cleanup s = Some tid \<and> due + dv_elapsed mid = now s + host_delay d)"
  shows "dv_inv es s"
  unfolding dv_inv_def
proof (intro conjI allI impI)
  show "effect_deps s = None \<Longrightarrow> timers s = []" using assms(1) by simp
next
  fix v' d'
  assume "effect_deps s = Some (v', d')"
  with assms(1) have eq: "v' = v" "d' = d" by simp_all
  show "\<exists>pre dopt mid. es = pre @ Render v' dopt # mid \<and> delay_or_default dopt = d' \<and>
      dv_quiet v' d' mid \<and>
      (timers s = [] \<or>
       (\<exists>tid due. timers s = [(tid, due, v')] \<and> effect_cleanup s = Some tid \<and>
          due + dv_elapsed mid = now s + host_delay d'))"
    unfolding eq
    apply (rule exI [of _ pre], rule exI [of _ dopt], rule exI [of _ mid])
    using assms(2-5) by simp
qed

lemma dv_invE:
  assumes "dv_inv es s" and "effect_deps s = Some (v, d)"
  obtains pre dopt mid where "es = pre @ Render v dopt # mid" and "delay_or_default dopt = d"
    and "dv_quiet v d mid"
    and "timers s = [] \<or> (\<exists>tid due. timers s = [(tid, due, v)] \<and>
       effect_cleanup s = Some tid \<and> due + dv_elapsed mid = now s + host_delay d)"
  using assms unfolding dv_inv_def by blast

lemma dv_inv_Elapse:
  assumes "dv_inv es s"
  shows "dv_inv (es @ [Elapse dt]) (dv_elapse dt s)"
proof (cases "effect_deps s")
  case None
  with assms have "timers s = []" by (simp add: dv_inv_def)
  with None show ?thesis
    by (simp add: dv_inv_def dv_elapse_frame dv_elapse_timers_none)
next
  case (Some p)
  obtain v d where p: "p = (v, d)" by (cases p)
  from assms Some p obtain pre dopt mid where
    es: "es = pre @ Render v dopt # mid" and dd: "delay_or_default dopt = d"
    and q: "dv_quiet v d mid"
    and tm: "timers s = [] \<or> (\<exists>tid due. timers s = [(tid, due, v)] \<and>
       effect_cleanup s = Some tid \<and> due + dv_elapsed mid = now s + host_delay d)"
    by (auto elim: dv_invE)
  let ?mid = "mid @ [Elapse dt]"
  have 0: "effect_deps (dv_elapse dt s) = Some (v, d)"
    using Some p by (simp add: dv_elapse_frame)
  have 1: "es @ [Elapse dt] = pre @ Render v dopt # ?mid" using es by simp
  have 2: "dv_quiet v d ?mid" using q by (simp add: dv_quiet_snoc_Elapse)
  have 3: "timers (dv_elapse dt s) = [] \<or>
            (\<exists>tid due. timers (dv_elapse dt s) = [(tid, due, v)] \<and>
               effect_cleanup (dv_elapse dt s) = Some tid \<and>
               due + dv_elapsed ?mid = now (dv_elapse dt s) + host_delay d)"
  proof (cases "timers s = []")
    case True
    then show ?thesis by (simp add: dv_elapse_timers_none)
  next
    case False
    with tm obtain tid due where t: "timers s = [(tid, due, v)]"
      and c: "effect_cleanup s = Some tid" and a: "due + dv_elapsed mid = now s + host_delay d"
      by blast
    show ?thesis
      using c a
      by (simp add: dv_elapse_timers_single [OF t] dv_elapse_frame dv_elapsed_snoc_Elapse)
  qed
  show ?thesis by (rule dv_invI [OF 0 1 dd 2 3])
qed

lemma dv_inv_Render:
  assumes "dv_inv es s"
  shows "dv_inv (es @ [Render w dw]) (useDebouncedValue w dw s)"
proof (cases "effect_deps s = Some (w, delay_or_default dw)")
  case True
  from assms True obtain pre dopt mid where
    es: "es = pre @ Render w dopt # mid" and dd: "delay_or_default dopt = delay_or_default dw"
    and q: "dv_quiet w (delay_or_default dw) mid"
    and tm: "timers s = [] \<or> (\<exists>tid due. timers s = [(tid, due, w)] \<and>
       effect_cleanup s = Some tid \<and> due + dv_elapsed mid = now s + host_delay (delay_or_default dw))"
    by (auto elim: dv_invE)
  let ?mid = "mid @ [Render w dw]"
  have 1: "es @ [Render w dw] = pre @ Render w dopt # ?mid" using es by simp
  have 2: "dv_quiet w (delay_or_default dw) ?mid" using q by (simp add: dv_quiet_snoc_Render)
  have 3: "timers s = [] \<or> (\<exists>tid due. timers s = [(tid, due, w)] \<and>
       effect_cleanup s = Some tid \<and> due + dv_elapsed ?mid = now s + host_delay (delay_or_default dw))"
    using tm by (simp add: dv_elapsed_snoc_Render)
  show ?thesis
    unfolding useDebouncedValue_same [OF True]
    by (rule dv_invI [OF True 1 dd 2 3])
next
  case False
  note ch = useDebouncedValue_change [OF False dv_inv_pending [OF assms]]
  have 1: "es @ [Render w dw] = es @ Render w dw # []" by simp
  show ?thesis
    by (rule dv_invI [OF ch(3) 1 refl]) (simp_all add: ch)
qed

lemma dv_inv_run: "dv_inv es (dv_run es (dv_init t0))"
proof (induction es rule: rev_induct)
  case Nil
  show ?case by (simp add: dv_inv_def dv_init_def)
next
  case (snoc e es)
  show ?case
    by (cases e) (simp_all add: dv_run_snoc dv_inv_Elapse dv_inv_Render snoc)
qed

lemma dv_fire_last:
  "debouncedValue (foldl dv_fire s ts) =
     (if ts = [] then debouncedValue s else Some (case last ts of (i, due, v) \<Rightarrow> v))"
  by (induction ts arbitrary: s) (auto simp: dv_fire_def split: prod.splits)

lemma dv_step_value:
  "debouncedValue (dv_step e s) =
     (if dv_emits e s = [] then debouncedValue s else Some (last (dv_emits e s)))"
proof (cases e)
  case (Render v d)
  then show ?thesis
    by (auto simp: useDebouncedValue_def setTimeout_def clearTimeout_def Let_def
        split: option.splits)
next
  case (Elapse dt)
  then show ?thesis
    by (simp add: dv_elapse_def Let_def dv_fire_last last_map split: prod.splits)
qed

lemma host_delay_in_range: "d < 2147483648 \<Longrightarrow> host_delay d = d"
  by (simp add: host_delay_def)

text \<open>
  Claim C6, for delays that the host keeps as they are (below 2147483648 ms). Whenever
  the passing of time makes the hook set \<open>debouncedValue\<close> to a value \<open>v\<close>, the trace so
  far ends with a render that passed \<open>v\<close>, followed by a stretch with no newer input
  (every later render passed the same value and delay); and when the delay of that
  render is below 2147483648 ms, at least the delay has gone by in that stretch. A
  render that brings a new input while a timer is pending clears that timer, whatever
  the delays: afterwards the only pending timer is the one of the new input, so the
  older value is never emitted. \<open>debouncedValue\<close> changes only through such emissions.
\<close>

theorem debounced_value_waits_for_quiet_input:
  "(v \<in> set (dv_emits (Elapse dt) (dv_run es (dv_init t0))) \<longrightarrow>
      (\<exists>pre d mid. es = pre @ Render v d # mid \<and> dv_quiet v (delay_or_default d) mid \<and>
         (delay_or_default d < 2147483648 \<longrightarrow> delay_or_default d \<le> dv_elapsed mid + dt))) \<and>
   (effect_deps (dv_run es (dv_init t0)) \<noteq> Some (w, delay_or_default dw) \<longrightarrow>
      map (\<lambda>(i, due, x). (i, x)) (timers (dv_step (Render w dw) (dv_run es (dv_init t0)))) =
        [(next_id (dv_run es (dv_init t0)), w)] \<and>
      (delay_or_default dw < 2147483648 \<longrightarrow>
         timers (dv_step (Render w dw) (dv_run es (dv_init t0))) =
           [(next_id (dv_run es (dv_init t0)),
             now (dv_run es (dv_init t0)) + delay_or_default dw, w)])) \<and>
   debouncedValue (dv_step e (dv_run es (dv_init t0))) =
     (if dv_emits e (dv_run es (dv_init t0)) = [] then debouncedValue (dv_run es (dv_init t0))
      else Some (last (dv_emits e (dv_run es (dv_init t0)))))"
proof (intro conjI impI)
  let ?s = "dv_run es (dv_init t0)"
  have inv: "dv_inv es ?s" by (rule dv_inv_run)
  {
    assume em: "v \<in> set (dv_emits (Elapse dt) ?s)"
    then have ne: "timers ?s \<noteq> []" by (auto simp: due_timers_def)
    with inv obtain p where deps: "effect_deps ?s = Some p"
      by (cases "effect_deps ?s") (auto simp: dv_inv_def)
    obtain u d where p: "p = (u, d)" by (cases p)
    from inv deps p obtain pre dopt mid where
      es: "es = pre @ Render u dopt # mid" and dd: "delay_or_default dopt = d"
      and q: "dv_quiet u d mid"
      and tm: "timers ?s = [] \<or> (\<exists>tid due. timers ?s = [(tid, due, u)] \<and>
         effect_cleanup ?s = Some tid \<and> due + dv_elapsed mid = now ?s + host_delay d)"
      by (auto elim: dv_invE)
    from tm ne obtain tid due where t: "timers ?s = [(tid, due, u)]"
      and a: "due + dv_elapsed mid = now ?s + host_delay d" by blast
    from em t have "v = u \<and> due \<le> now ?s + dt"
      by (auto simp: due_timers_def split: if_splits)
    with a have "v = u" "host_delay d \<le> dv_elapsed mid + dt" by simp_all
    then have "v = u" "d < 2147483648 \<longrightarrow> d \<le> dv_elapsed mid + dt"
      using host_delay_in_range [of d] by auto
    with es dd q
    show "\<exists>pre d mid. es = pre @ Render v d # mid \<and> dv_quiet v (delay_or_default d) mid \<and>
         (delay_or_default d < 2147483648 \<longrightarrow> delay_or_default d \<le> dv_elapsed mid + dt)"
      by blast
  }
  {
    assume "effect_deps ?s \<noteq> Some (w, delay_or_default dw)"
    note ch = useDebouncedValue_change(1) [OF this dv_inv_pending [OF inv]]
    show "map (\<lambda>(i, due, x). (i, x)) (timers (dv_step (Render w dw) ?s)) = [(next_id ?s, w)]"
      by (simp add: ch)
    assume "delay_or_default dw < 2147483648"
    then show "timers (dv_step (Render w dw) ?s) =
        [(next_id ?s, now ?s + delay_or_default dw, w)]"
      by (simp add: ch host_delay_in_range)
  }
  show "debouncedValue (dv_step e ?s) =
     (if dv_emits e ?s = [] then debouncedValue ?s else Some (last (dv_emits e ?s)))"
    by (rule dv_step_value)
qed

lemmas dv_eval = dv_init_def useDebouncedValue_def dv_elapse_def dv_fire_def setTimeout_def
  host_delay_def clearTimeout_def due_timers_def waiting_timers_def delay_or_default_def Let_def

theorem debounced_value_waits_for_quiet_input_witness:
  "''b'' \<in> set (dv_emits (Elapse 100)
      (dv_run [Render ''a'' None, Elapse 300, Render ''b'' None, Elapse 400] (dv_init 0))) \<and>
   (\<exists>pre d mid. [Render ''a'' None, Elapse 300, Render ''b'' None, Elapse 400]
        = pre @ Render ''b'' d # mid \<and>
      dv_quiet ''b'' (delay_or_default d) mid \<and>
      (delay_or_default d < 2147483648 \<longrightarrow> delay_or_default d \<le> dv_elapsed mid + 100)) \<and>
   effect_deps (dv_run [Render ''a'' None, Elapse 300, Render ''b'' None, Elapse 400] (dv_init 0))
     \<noteq> Some (''c'', delay_or_default (Some 50)) \<and>
   delay_or_default (Some 50) < 2147483648 \<and>
   timers (dv_step (Render ''c'' (Some 50))
      (dv_run [Render ''a'' None, Elapse 300, Render ''b'' None, Elapse 400] (dv_init 0)))
     = [(3, 750, ''c'')]"
  using debounced_value_waits_for_quiet_input
    [of "''b''" 100 "[Render ''a'' None, Elapse 300, Render ''b'' None, Elapse 400]" 0
        "''c''" "Some 50" "Elapse 0"]
  by (simp add: dv_eval)

text \<open>
  With a delay of 2147483648 ms the host runs the timer at once: the new input \<open>b\<close>
  is emitted 1 ms after it arrived, long before its delay has gone by.
\<close>

theorem debounced_value_huge_delay_counterexample:
  "dv_emits (Elapse 1)
     (dv_run [Render ''a'' (Some 500), Elapse 600, Render ''b'' (Some 2147483648)] (dv_init 0))
     = [''b''] \<and>
   dv_elapsed [Elapse 1 :: string dv_event] < delay_or_default (Some 2147483648)"
  by (simp add: dv_eval)








section \<open>Properties of useDebouncedFunction\<close>

lemma df_run_append: "df_run (es @ es') s = df_run es' (df_run es s)"
  by (induction es arbitrary: s) simp_all

lemma df_inv_init: "df_inv (df_init t0)"
  by (simp add: df_inv_def df_init_def)

lemma debouncedFunction_inv:
  assumes "df_inv s"
  shows "timers (debouncedFunction fn d args s) = [(next_id s, now s + host_delay d, (fn, args))]"
    and "timeoutRef (debouncedFunction fn d args s) = Some (next_id s)"
    and "next_id (debouncedFunction fn d args s) = Suc (next_id s)"
    and "now (debouncedFunction fn d args s) = now s"
    and "invoked (debouncedFunction fn d args s) = invoked s"
  using assms
  by (auto simp: df_inv_def debouncedFunction_def setTimeout_def clearTimeout_def Let_def
      split: option.splits)

lemma df_wait_none:
  assumes "timers s = []"
  shows "df_wait dt s = s\<lparr>now := now s + dt\<rparr>"
  using assms by (simp add: df_wait_def Let_def due_timers_def waiting_timers_def)

lemma df_wait_early:
  assumes "timers s = [(tid, due, c)]" and "now s + dt < due"
  shows "df_wait dt s = s\<lparr>now := now s + dt\<rparr>"
  using assms by (simp add: df_wait_def Let_def due_timers_def waiting_timers_def)

lemma df_wait_due:
  assumes "timers s = [(tid, due, c)]" and "due \<le> now s + dt"
  shows "df_wait dt s = s\<lparr>invoked := invoked s @ [(due, c)], now := now s + dt, timers := []\<rparr>"
  using assms
  by (cases c) (simp add: df_wait_def Let_def due_timers_def waiting_timers_def df_fire_def)

lemma df_inv_step:
  assumes "df_inv s"
  shows "df_inv (df_step e s)"
proof (cases e)
  case (Invoke fn d args)
  have "0 < next_id s" using assms by (simp add: df_inv_def)
  then show ?thesis
    unfolding Invoke df_inv_def
    by (simp add: useDebouncedFunction_def debouncedFunction_inv [OF assms])
next
  case (Wait dt)
  show ?thesis
  proof (cases "timers s = []")
    case True
    with assms show ?thesis by (simp add: Wait df_wait_none df_inv_def)
  next
    case False
    with assms obtain tid due c where t: "timers s = [(tid, due, c)]"
      by (auto simp: df_inv_def)
    show ?thesis
    proof (cases "due \<le> now s + dt")
      case True
      with assms show ?thesis by (simp add: Wait df_wait_due [OF t] df_inv_def)
    next
      case False
      then have "now s + dt < due" by simp
      with assms show ?thesis by (simp add: Wait df_wait_early [OF t] df_inv_def)
    qed
  qed
qed

lemma df_inv_run: "df_inv s \<Longrightarrow> df_inv (df_run es s)"
  by (induction es arbitrary: s) (simp_all add: df_inv_step)

lemma df_burst_run:
  assumes "df_inv s" and "df_gaps_below (delay_or_default d) cs"
    and "delay_or_default d < 2147483648"
  shows "invoked (df_run (df_burst d c cs) s) = invoked s \<and>
         now (df_run (df_burst d c cs) s) = now s + df_gaps cs \<and>
         (\<exists>tid. timers (df_run (df_burst d c cs) s) =
            [(tid, now s + df_gaps cs + delay_or_default d, df_last_call c cs)])"
  using assms(1,2)
proof (induction cs arbitrary: c s)
  case Nil
  show ?case
    by (cases c)
      (simp add: useDebouncedFunction_def debouncedFunction_inv [OF Nil(1)]
        host_delay_in_range [OF assms(3)])
next
  case (Cons x cs)
  obtain gap c' where x: "x = (gap, c')" by (cases x)
  obtain fn args where c: "c = (fn, args)" by (cases c)
  let ?d = "delay_or_default d"
  let ?s1 = "debouncedFunction fn ?d args s"
  let ?s2 = "df_wait gap ?s1"
  note s1 = debouncedFunction_inv [OF Cons.prems(1), of fn ?d args]
  from Cons.prems(2) x have gap: "gap < ?d" and rest: "df_gaps_below ?d cs" by simp_all
  have w: "?s2 = ?s1\<lparr>now := now ?s1 + gap\<rparr>"
    using gap
    by (intro df_wait_early [OF s1(1)]) (simp add: s1 host_delay_in_range [OF assms(3)])
  have inv2: "df_inv ?s2"
    using df_inv_step [OF df_inv_step [OF Cons.prems(1), of "Invoke fn d args"], of "Wait gap"]
    by (simp add: useDebouncedFunction_def)
  have run: "df_run (df_burst d c (x # cs)) s = df_run (df_burst d c' cs) ?s2"
    by (simp add: x c useDebouncedFunction_def)
  have facts: "invoked ?s2 = invoked s" "now ?s2 = now s + gap"
    by (simp_all add: w s1)
  from Cons.IH [OF inv2 rest, of c'] show ?case
    unfolding run by (simp add: facts x add.assoc)
qed

text \<open>
  Claim C7, for delays that the host keeps as they are (below 2147483648 ms). A call of
  the debounced function leaves exactly one timer pending, its own, whatever the delay:
  any timer of an earlier call is cleared. With a delay below 2147483648 ms that timer
  is due the delay after the call; so after a burst of calls, each less than the delay
  after the one before, and a wait of at least the delay, the wrapped function has been
  invoked once more, with the arguments of the last call of the burst and at the time
  of that call plus the delay, and nothing is left pending.
\<close>

theorem debounced_function_runs_last_call_only:
  "map (\<lambda>(i, due, c). (i, c)) (timers (df_step (Invoke fn d args) (df_run es (df_init t0)))) =
     [(next_id (df_run es (df_init t0)), (fn, args))] \<and>
   (delay_or_default d < 2147483648 \<longrightarrow>
      timers (df_step (Invoke fn d args) (df_run es (df_init t0))) =
        [(next_id (df_run es (df_init t0)),
          now (df_run es (df_init t0)) + delay_or_default d, (fn, args))]) \<and>
   (delay_or_default d < 2147483648 \<and>
    df_gaps_below (delay_or_default d) cs \<and> delay_or_default d \<le> dt \<longrightarrow>
      invoked (df_run (df_burst d c cs @ [Wait dt]) (df_run es (df_init t0))) =
        invoked (df_run es (df_init t0)) @
          [(now (df_run es (df_init t0)) + df_gaps cs + delay_or_default d, df_last_call c cs)] \<and>
      timers (df_run (df_burst d c cs @ [Wait dt]) (df_run es (df_init t0))) = [])"
proof (intro conjI impI)
  let ?s = "df_run es (df_init t0)"
  have inv: "df_inv ?s" by (rule df_inv_run [OF df_inv_init])
  show "map (\<lambda>(i, due, c). (i, c)) (timers (df_step (Invoke fn d args) ?s)) =
     [(next_id ?s, (fn, args))]"
    by (simp add: useDebouncedFunction_def debouncedFunction_inv [OF inv])
  {
    assume "delay_or_default d < 2147483648"
    then show "timers (df_step (Invoke fn d args) ?s) =
       [(next_id ?s, now ?s + delay_or_default d, (fn, args))]"
      by (simp add: useDebouncedFunction_def debouncedFunction_inv [OF inv] host_delay_in_range)
  }
  assume a: "delay_or_default d < 2147483648 \<and>
    df_gaps_below (delay_or_default d) cs \<and> delay_or_default d \<le> dt"
  let ?b = "df_run (df_burst d c cs) ?s"
  from a df_burst_run [OF inv, of d cs c] obtain tid where
    b: "invoked ?b = invoked ?s" "now ?b = now ?s + df_gaps cs"
      "timers ?b = [(tid, now ?s + df_gaps cs + delay_or_default d, df_last_call c cs)]"
    by blast
  have due: "now ?s + df_gaps cs + delay_or_default d \<le> now ?b + dt"
    using a b(2) by simp
  note w = df_wait_due [OF b(3) due]
  show "invoked (df_run (df_burst d c cs @ [Wait dt]) ?s) =
        invoked ?s @ [(now ?s + df_gaps cs + delay_or_default d, df_last_call c cs)]"
    by (simp add: df_run_append w b(1))
  show "timers (df_run (df_burst d c cs @ [Wait dt]) ?s) = []"
    by (simp add: df_run_append w)
qed

lemmas df_eval = df_init_def useDebouncedFunction_def debouncedFunction_def df_wait_def
  df_fire_def setTimeout_def host_delay_def clearTimeout_def due_timers_def waiting_timers_def
  delay_or_default_def Let_def

theorem debounced_function_runs_last_call_only_witness:
  "delay_or_default None < 2147483648 \<and>
   df_gaps_below (delay_or_default None)
     [(100, (''save'', [2::nat])), (499, (''save'', [3]))] \<and>
   delay_or_default None \<le> 500 \<and>
   invoked (df_run (df_burst None (''save'', [1]) [(100, (''save'', [2])), (499, (''save'', [3]))]
        @ [Wait 500])
      (df_run [Invoke ''save'' None [0], Wait 20] (df_init 0))) = [(1119, ''save'', [3::nat])] \<and>
   timers (df_step (Invoke ''save'' None [1::nat])
      (df_run [Invoke ''save'' None [0], Wait 20] (df_init 0))) = [(2, 520, ''save'', [1])]"
  using debounced_function_runs_last_call_only
    [of "''save''" None "[1::nat]" "[Invoke ''save'' None [0], Wait 20]" 0
        "[(100, (''save'', [2])), (499, (''save'', [3]))]" 500 "(''save'', [1])"]
  by (simp add: df_eval)

text \<open>
  With a delay of 2147483648 ms the host runs the timer at once: in a burst of two
  calls 1 ms apart, the wrapped function is invoked with the arguments of the first
  call, before the second call clears anything.
\<close>

theorem debounced_function_huge_delay_counterexample:
  "df_gaps_below (delay_or_default (Some 2147483648)) [(1, (''save'', [2::nat]))] \<and>
   map snd (invoked (df_run (df_burst (Some 2147483648) (''save'', [1]) [(1, (''save'', [2]))])
      (df_init 0))) = [(''save'', [1::nat])]"
  by (simp add: df_eval)

text \<open>
  Claim C8. A call of either hook without the delay argument is the same state
  transformer as the call with the delay 500, and the timer it sets is due 500 ms
  later.
\<close>

theorem omitted_delay_is_500:
  "useDebouncedValue v None = useDebouncedValue v (Some 500) \<and>
   useDebouncedFunction fn None = useDebouncedFunction fn (Some 500) \<and>
   timers (useDebouncedValue v None (dv_init t0)) = [(1, t0 + 500, v)] \<and>
   timers (useDebouncedFunction fn None args (df_init t0)) = [(1, t0 + 500, (fn, args))]"
  by (simp add: useDebouncedValue_def useDebouncedFunction_def delay_or_default_def fun_eq_iff
      dv_init_def df_init_def debouncedFunction_def setTimeout_def host_delay_def)

section \<open>Properties of useCustomFetcher\<close>

lemma try_body_not_ok:
  "\<not> ok res \<Longrightarrow> try_body (Resolves res) = Inl (''HTTP error! status: '' @ string_of_nat (status res))"
  by (simp add: try_body_def)

lemma try_body_ok: "ok res \<Longrightarrow> try_body (Resolves res) = json res"
  by (simp add: try_body_def)

lemma fetchData_settle_Inl:
  assumes "try_body r = Inl msg"
  shows "fetchData_settle r s = s\<lparr>isError := True, error := msg, isLoading := False\<rparr>"
  using assms by (simp add: fetchData_settle_def)

lemma fetchData_settle_Inr:
  assumes "try_body r = Inr d"
  shows "fetchData_settle r s = s\<lparr>data := Some d, isLoading := False\<rparr>"
  using assms by (simp add: fetchData_settle_def)

lemma try_body_Inr:
  "try_body r = Inr d \<Longrightarrow> \<exists>res. r = Resolves res \<and> ok res \<and> json res = Inr d"
  by (auto simp: try_body_def split: fetch_result.splits if_splits)

lemma data_fetchData_begin: "data (fetchData_begin url s) = data s"
  by (simp add: fetchData_begin_def reset_def)

lemma data_useCustomFetcher: "data (useCustomFetcher url s) = data s"
  by (simp add: useCustomFetcher_def data_fetchData_begin)

text \<open>
  Claim C4. When the request settles with a response whose status is outside 200 to
  299, the hook ends in the error state: \<open>isError\<close> is true, \<open>error\<close> is the non-empty
  message with the status, and \<open>data\<close> is what it was. When the status is inside the
  range and the body parses to \<open>d\<close>, \<open>data\<close> becomes \<open>d\<close> and \<open>isError\<close> is not touched,
  so that it is still false at the end of the attempt that cleared it.
\<close>

theorem fetcher_status_decides_outcome:
  "(status res < 200 \<or> 299 < status res \<longrightarrow>
      isError (fetchData_settle (Resolves res) s) \<and>
      error (fetchData_settle (Resolves res) s) =
        ''HTTP error! status: '' @ string_of_nat (status res) \<and>
      error (fetchData_settle (Resolves res) s) \<noteq> [] \<and>
      data (fetchData_settle (Resolves res) s) = data s) \<and>
   (200 \<le> status res' \<and> status res' \<le> 299 \<and> json res' = Inr d \<longrightarrow>
      data (fetchData_settle (Resolves res') s) = Some d \<and>
      isError (fetchData_settle (Resolves res') s) = isError s \<and>
      \<not> isError (fetchData_settle (Resolves res') (fetchData_begin url s)))"
proof (intro conjI impI)
  assume "status res < 200 \<or> 299 < status res"
  then have "\<not> ok res" by (auto simp: ok_def)
  note st = fetchData_settle_Inl [OF try_body_not_ok [OF this]]
  show "isError (fetchData_settle (Resolves res) s)" by (simp add: st)
  show "error (fetchData_settle (Resolves res) s) =
        ''HTTP error! status: '' @ string_of_nat (status res)" by (simp add: st)
  show "error (fetchData_settle (Resolves res) s) \<noteq> []" by (simp add: st)
  show "data (fetchData_settle (Resolves res) s) = data s" by (simp add: st)
next
  assume a: "200 \<le> status res' \<and> status res' \<le> 299 \<and> json res' = Inr d"
  then have "ok res'" by (simp add: ok_def)
  from try_body_ok [OF this] a have "try_body (Resolves res') = Inr d" by simp
  note st = fetchData_settle_Inr [OF this]
  show "data (fetchData_settle (Resolves res') s) = Some d" by (simp add: st)
  show "isError (fetchData_settle (Resolves res') s) = isError s" by (simp add: st)
  show "\<not> isError (fetchData_settle (Resolves res') (fetchData_begin url s))"
    by (simp add: st fetchData_begin_def reset_def)
qed

lemmas fetcher_eval = fetcher_init_def useCustomFetcher_def fetchData_begin_def reset_def
  fetchData_settle_def try_body_def ok_def string_of_nat.simps digit_char_def

theorem fetcher_status_decides_outcome_witness:
  "(status (Response 404 (Inr ''page'')) < 200 \<or> 299 < status (Response 404 (Inr ''page''))) \<and>
   error (fetchData_settle (Resolves (Response 404 (Inr ''page''))) fetcher_init) =
     ''HTTP error! status: 404'' \<and>
   data (fetchData_settle (Resolves (Response 404 (Inr ''page''))) fetcher_init) = None \<and>
   200 \<le> status (Response 204 (Inr ''body'')) \<and> status (Response 204 (Inr ''body'')) \<le> 299 \<and>
   json (Response 204 (Inr ''body'')) = Inr ''body'' \<and>
   data (fetchData_settle (Resolves (Response 204 (Inr ''body''))) fetcher_init) = Some ''body'' \<and>
   \<not> isError (fetchData_settle (Resolves (Response 204 (Inr ''body'')))
     (fetchData_begin ''/items'' fetcher_init))"
  using fetcher_status_decides_outcome
    [of "Response 404 (Inr ''page'')" fetcher_init "Response 204 (Inr ''body'')" "''body''"
        "''/items''"]
  by (simp add: fetcher_eval)

lemma effect_url_useCustomFetcher: "effect_url (useCustomFetcher url s) = Some url"
  by (simp add: useCustomFetcher_def fetchData_begin_def reset_def)

lemma effect_url_fetchData_settle: "effect_url (fetchData_settle r s) = effect_url s"
  by (simp add: fetchData_settle_def split: sum.splits)

lemma effect_url_Fetch_settles: "effect_url (fetcher_step (Fetch_settles i r) s) = effect_url s"
  by (simp add: effect_url_fetchData_settle)

lemma effect_url_fetcher_run: "effect_url (fetcher_run es s) = url_after (effect_url s) es"
proof (induction es arbitrary: s)
  case Nil
  show ?case by simp
next
  case (Cons e es)
  show ?case
  proof (cases e)
    case (Fetcher_render url)
    then show ?thesis by (simp add: Cons.IH effect_url_useCustomFetcher)
  next
    case (Fetch_settles i r)
    then show ?thesis
      using Cons.IH [of "fetcher_step (Fetch_settles i r) s"]
      by (simp only: fetcher_run.simps url_after.simps effect_url_Fetch_settles)
  qed
qed

lemma inflight_useCustomFetcher:
  "inflight (useCustomFetcher url s) =
     (if effect_url s = Some url then inflight s else inflight s @ [url])"
  by (simp add: useCustomFetcher_def fetchData_begin_def reset_def)

lemma inflight_Fetch_settles:
  "inflight (fetcher_step (Fetch_settles i r) s) =
     (if i < length (inflight s) then take i (inflight s) @ drop (Suc i) (inflight s)
      else inflight s)"
  by simp

lemma fetches_begun_url_changes: "fetches_begun es s = url_changes (effect_url s) es"
proof (induction es arbitrary: s)
  case Nil
  show ?case by simp
next
  case (Cons e es)
  show ?case
  proof (cases e)
    case (Fetcher_render url)
    then show ?thesis
      by (simp add: Cons.IH effect_url_useCustomFetcher inflight_useCustomFetcher)
  next
    case (Fetch_settles i r)
    have "length (inflight (fetcher_step (Fetch_settles i r) s)) \<le> length (inflight s)"
      by (simp add: inflight_Fetch_settles)
    then have "length (inflight (fetcher_step (Fetch_settles i r) s)) - length (inflight s) = 0"
      by simp
    then show ?thesis
      using Cons.IH [of "fetcher_step (Fetch_settles i r) s"]
      by (simp only: Fetch_settles fetches_begun.simps url_changes.simps
          effect_url_Fetch_settles add_0)
  qed
qed

text \<open>
  Claim C5. Along any trace from the mount, a render starts a fetch exactly when its
  URL differs from the URL of the render before it, responses in between making no
  difference; the first render has no render before it, so mounting always fetches.
  The requests issued along a trace are as many as the changes of the URL in it, and
  the settling of a request issues none: it only takes that request out of those in
  flight. A fetch begins by clearing the error state and setting \<open>isLoading\<close>; when its
  request settles, \<open>isLoading\<close> is cleared, whatever the outcome.
\<close>

theorem fetcher_refetches_on_url_change:
  "(url_after None es \<noteq> Some url \<longrightarrow>
      fetcher_step (Fetcher_render url) (fetcher_run es fetcher_init) =
        fetchData_begin url ((fetcher_run es fetcher_init)\<lparr>effect_url := Some url\<rparr>) \<and>
      inflight (fetcher_step (Fetcher_render url) (fetcher_run es fetcher_init)) =
        inflight (fetcher_run es fetcher_init) @ [url]) \<and>
   (url_after None es' = Some url' \<longrightarrow>
      fetcher_step (Fetcher_render url') (fetcher_run es' (fetcher_init :: 'd fetcher_state)) =
        fetcher_run es' fetcher_init) \<and>
   fetches_begun es (fetcher_init :: 'd fetcher_state) = url_changes None es \<and>
   inflight (fetcher_step (Fetch_settles i r) s) =
     (if i < length (inflight s) then take i (inflight s) @ drop (Suc i) (inflight s)
      else inflight s) \<and>
   effect_url (fetcher_step (Fetch_settles i r) s) = effect_url s \<and>
   \<not> isError (fetchData_begin url s) \<and> error (fetchData_begin url s) = [] \<and>
   isLoading (fetchData_begin url s) \<and>
   \<not> isLoading (fetchData_settle r s) \<and>
   \<not> isLoading (fetcher_step (Fetch_settles 0 r) (fetchData_begin url s))"
proof (intro conjI impI)
  have init: "effect_url (fetcher_init :: 'd fetcher_state) = None"
    by (simp add: fetcher_init_def)
  have run: "\<And>es. effect_url (fetcher_run es (fetcher_init :: 'd fetcher_state))
      = url_after None es"
    by (simp add: effect_url_fetcher_run init)
  {
    assume "url_after None es \<noteq> Some url"
    then have ne: "effect_url (fetcher_run es (fetcher_init :: 'd fetcher_state)) \<noteq> Some url"
      by (simp add: run)
    then show "fetcher_step (Fetcher_render url) (fetcher_run es (fetcher_init :: 'd fetcher_state)) =
        fetchData_begin url ((fetcher_run es fetcher_init)\<lparr>effect_url := Some url\<rparr>)"
      by (simp add: useCustomFetcher_def)
    from ne show "inflight (fetcher_step (Fetcher_render url)
          (fetcher_run es (fetcher_init :: 'd fetcher_state))) =
        inflight (fetcher_run es fetcher_init) @ [url]"
      by (simp add: inflight_useCustomFetcher)
  }
  {
    assume "url_after None es' = Some url'"
    then have "effect_url (fetcher_run es' (fetcher_init :: 'd fetcher_state)) = Some url'"
      by (simp add: run)
    then show "fetcher_step (Fetcher_render url') (fetcher_run es' (fetcher_init :: 'd fetcher_state)) =
        fetcher_run es' fetcher_init"
      by (simp add: useCustomFetcher_def)
  }
  show "fetches_begun es (fetcher_init :: 'd fetcher_state) = url_changes None es"
    by (simp add: fetches_begun_url_changes init)
  show "inflight (fetcher_step (Fetch_settles i r) s) =
     (if i < length (inflight s) then take i (inflight s) @ drop (Suc i) (inflight s)
      else inflight s)"
    by (rule inflight_Fetch_settles)
  show "effect_url (fetcher_step (Fetch_settles i r) s) = effect_url s"
    by (rule effect_url_Fetch_settles)
qed (simp_all add: fetchData_begin_def reset_def fetchData_settle_def split: sum.splits)

theorem fetcher_refetches_on_url_change_witness:
  "url_after None [Fetcher_render ''/a'', Fetch_settles 0 (Resolves (Response 200 (Inr (1::nat))))]
     \<noteq> Some ''/b'' \<and>
   inflight (fetcher_step (Fetcher_render ''/b'')
     (fetcher_run [Fetcher_render ''/a'', Fetch_settles 0 (Resolves (Response 200 (Inr (1::nat))))]
        fetcher_init)) = [''/b''] \<and>
   url_after None [Fetcher_render ''/a'', Fetch_settles 0 (Resolves (Response 200 (Inr (1::nat))))]
     = Some ''/a'' \<and>
   inflight (fetcher_step (Fetcher_render ''/a'')
     (fetcher_run [Fetcher_render ''/a'', Fetch_settles 0 (Resolves (Response 200 (Inr (1::nat))))]
        fetcher_init)) = [] \<and>
   fetches_begun [Fetcher_render ''/a'', Fetch_settles 0 (Resolves (Response 200 (Inr (1::nat)))),
                  Fetcher_render ''/a'', Fetcher_render ''/b'', Fetcher_render ''/a'']
     fetcher_init = 3"
  using fetcher_refetches_on_url_change
    [of "[Fetcher_render ''/a'', Fetch_settles 0 (Resolves (Response 200 (Inr (1::nat))))]"
        "''/b''"
        "[Fetcher_render ''/a'', Fetch_settles 0 (Resolves (Response 200 (Inr (1::nat))))]"
        "''/a''" 0 "Rejects ''x''" fetcher_init]
  by (simp add: fetcher_eval)

text \<open>
  Claim C10. Starting a fetch leaves \<open>data\<close> as it is, and so does an attempt that fails,
  which sets \<open>isError\<close>. \<open>data\<close> changes only when a request settles with a response whose
  status is in 200 to 299 and whose body parses. So when a fetch succeeds with \<open>d\<close>, the
  URL changes and the next fetch fails, \<open>data\<close> still holds \<open>d\<close> while \<open>isError\<close> is true.
\<close>

theorem fetcher_failure_keeps_data:
  "data (useCustomFetcher url s) = data s \<and>
   (try_body r = Inl msg \<longrightarrow>
      data (fetchData_settle r s) = data s \<and> isError (fetchData_settle r s) \<and>
      error (fetchData_settle r s) = msg) \<and>
   (data (fetchData_settle r' s) \<noteq> data s \<longrightarrow>
      (\<exists>res d. r' = Resolves res \<and> 200 \<le> status res \<and> status res \<le> 299 \<and>
         json res = Inr d \<and> data (fetchData_settle r' s) = Some d)) \<and>
   (u1 \<noteq> u2 \<and> 200 \<le> st \<and> st \<le> 299 \<and> try_body r = Inl msg \<longrightarrow>
      data (fetcher_run [Fetcher_render u1, Fetch_settles 0 (Resolves (Response st (Inr d0))),
              Fetcher_render u2, Fetch_settles 0 r] fetcher_init) = Some d0 \<and>
      isError (fetcher_run [Fetcher_render u1, Fetch_settles 0 (Resolves (Response st (Inr d0))),
              Fetcher_render u2, Fetch_settles 0 r] fetcher_init))"
proof (intro conjI impI)
  show "data (useCustomFetcher url s) = data s" by (rule data_useCustomFetcher)
next
  assume a: "try_body r = Inl msg"
  show "data (fetchData_settle r s) = data s" "isError (fetchData_settle r s)"
    "error (fetchData_settle r s) = msg"
    by (simp_all add: fetchData_settle_Inl [OF a])
next
  assume ch: "data (fetchData_settle r' s) \<noteq> data s"
  show "\<exists>res d. r' = Resolves res \<and> 200 \<le> status res \<and> status res \<le> 299 \<and>
         json res = Inr d \<and> data (fetchData_settle r' s) = Some d"
  proof (cases "try_body r'")
    case (Inl m)
    with ch show ?thesis by (simp add: fetchData_settle_Inl)
  next
    case (Inr d)
    from try_body_Inr [OF Inr] obtain res where "r' = Resolves res" "ok res" "json res = Inr d"
      by blast
    moreover have "data (fetchData_settle r' s) = Some d"
      by (simp add: fetchData_settle_Inr [OF Inr])
    ultimately show ?thesis by (simp add: ok_def)
  qed
next
  assume a: "u1 \<noteq> u2 \<and> 200 \<le> st \<and> st \<le> 299 \<and> try_body r = Inl msg"
  then have ok1: "try_body (Resolves (Response st (Inr d0))) = Inr d0"
    by (simp add: try_body_def ok_def)
  from a have f: "try_body r = Inl msg" by simp
  from a have ne: "u1 \<noteq> u2" by simp
  let ?run = "fetcher_run [Fetcher_render u1, Fetch_settles 0 (Resolves (Response st (Inr d0))),
              Fetcher_render u2, Fetch_settles 0 r] fetcher_init"
  have "data ?run = Some d0 \<and> isError ?run"
    using ne
    by (simp add: fetcher_init_def useCustomFetcher_def fetchData_begin_def reset_def
        fetchData_settle_Inl [OF f] fetchData_settle_Inr [OF ok1])
  then show "data ?run = Some d0" "isError ?run" by simp_all
qed

theorem fetcher_failure_keeps_data_witness:
  "try_body (Rejects ''Failed to fetch'' :: nat fetch_result) = Inl ''Failed to fetch'' \<and>
   data (fetchData_settle (Resolves (Response 200 (Inr (7::nat)))) fetcher_init)
     \<noteq> data (fetcher_init :: nat fetcher_state) \<and>
   ''/a'' \<noteq> ''/b'' \<and> (200::nat) \<le> 200 \<and> (200::nat) \<le> 299 \<and>
   data (fetcher_run [Fetcher_render ''/a'', Fetch_settles 0 (Resolves (Response 200 (Inr 7))),
              Fetcher_render ''/b'', Fetch_settles 0 (Rejects ''Failed to fetch'')] fetcher_init)
     = Some (7::nat) \<and>
   error (fetcher_run [Fetcher_render ''/a'', Fetch_settles 0 (Resolves (Response 200 (Inr 7))),
              Fetcher_render ''/b'', Fetch_settles 0 (Rejects ''Failed to fetch'')]
              (fetcher_init :: nat fetcher_state))
     = ''Failed to fetch''"
  using fetcher_failure_keeps_data
    [of "''/a''" "fetcher_init :: nat fetcher_state" "Rejects ''Failed to fetch''"
        "''Failed to fetch''" "Resolves (Response 200 (Inr 7))" "''/a''" "''/b''" 200 7]
  by (simp add: fetcher_eval)

section \<open>Properties of the form state controller\<close>

lemma map_fst_set_field: "map fst (set_field f v obj) = map fst obj"
  by (induction obj) (auto simp: set_field_def)

lemma form_inv_useForm: "form_inv init (useForm init)"
  by (simp add: form_inv_def useForm_def)

lemma form_inv_initialValues: "form_inv init s \<Longrightarrow> initialValues s = init"
  by (simp add: form_inv_def initialValues_def deref_def)

lemma form_inv_step:
  assumes "form_inv init s"
  shows "form_inv init (form_step vs e s)"
proof (cases e)
  case (Change f v)
  from assms obtain obj where "store s (values_ref s) = Some obj" "map fst obj = map fst init"
    by (auto simp: form_inv_def)
  with assms show ?thesis
    by (simp add: Change form_inv_def handleChange_def form_values_def deref_def
        map_fst_set_field)
next
  case (Blur f)
  with assms show ?thesis by (simp add: form_inv_def handleBlur_def)
next
  case (Focus f)
  with assms show ?thesis by (simp add: form_inv_def handleFocus_def)
next
  case Submit
  with assms show ?thesis
    by (simp add: form_inv_def handleSubmit_def Let_def split: prod.splits)
next
  case (Settled outcome)
  with assms show ?thesis
    by (simp add: form_inv_def onSubmit_settled_def split: submit_outcome.splits)
next
  case Reset
  with assms show ?thesis
    by (auto simp: form_inv_def resetFields_def initialValues_def deref_def)
qed

lemma form_inv_run: "form_inv init s \<Longrightarrow> form_inv init (form_run vs es s)"
  by (induction es arbitrary: s) (simp_all add: form_inv_step)

lemma validate_field_other:
  "f' \<noteq> f \<Longrightarrow> fst (validate_field vs vals f' errs) f = errs f"
  by (simp add: validate_field_def Let_def split: option.splits)

lemma validate_field_invalid:
  assumes "vs f = Some validator" and "map_of vals f = Some v" and "\<not> isValid (validator v)"
  shows "validate_field vs vals f errs = (errs(f := Some (errorMessage (validator v))), False)"
  using assms by (simp add: validate_field_def Let_def)

lemma validate_fields_invalid:
  assumes "vs f = Some validator" and "map_of vals f = Some v" and "\<not> isValid (validator v)"
  shows "(f \<in> set fs \<longrightarrow>
            \<not> snd (validate_fields vs vals fs errs) \<and>
            fst (validate_fields vs vals fs errs) f = Some (errorMessage (validator v))) \<and>
         (f \<notin> set fs \<longrightarrow> fst (validate_fields vs vals fs errs) f = errs f)"
proof (induction fs arbitrary: errs)
  case Nil
  show ?case by simp
next
  case (Cons g fs)
  obtain errs1 ok1 where g: "validate_field vs vals g errs = (errs1, ok1)"
    by (cases "validate_field vs vals g errs")
  obtain errs2 ok2 where r: "validate_fields vs vals fs errs1 = (errs2, ok2)"
    by (cases "validate_fields vs vals fs errs1")
  have eq: "validate_fields vs vals (g # fs) errs = (errs2, ok1 \<and> ok2)"
    by (simp add: g r)
  note ih = Cons.IH [of errs1, unfolded r, simplified]
  show ?case
  proof (cases "g = f")
    case True
    from validate_field_invalid
      [where vs = vs and f = f and validator = validator and vals = vals and v = v
         and errs = errs, OF assms] g True
    have 1: "errs1 = errs(f := Some (errorMessage (validator v)))" "\<not> ok1" by simp_all
    show ?thesis
      unfolding eq using ih 1 True by (cases "f \<in> set fs") simp_all
  next
    case False
    from validate_field_other [OF False, of vs vals errs] g have "errs1 f = errs f" by simp
    then show ?thesis
      unfolding eq using ih False by (cases "f \<in> set fs") simp_all
  qed
qed

text \<open>
  Claim C1. In any state that the form can reach, when a field of the form has a
  validator and its current value is invalid, \<open>handleSubmit\<close> does not invoke
  \<^verbatim>\<open>onSubmit\<close>, leaves \<open>isSubmitting\<close> as it is, and sets the field's error to the message
  of the field's validator.
\<close>

theorem submit_with_invalid_field_is_blocked:
  assumes "vs f = Some validator"
    and "f \<in> fst ` set init"
    and "map_of (form_values (form_run vs es (useForm init))) f = Some v"
    and "\<not> isValid (validator v)"
  shows "submitted (handleSubmit vs (form_run vs es (useForm init)))
           = submitted (form_run vs es (useForm init)) \<and>
         pending (handleSubmit vs (form_run vs es (useForm init)))
           = pending (form_run vs es (useForm init)) \<and>
         isSubmitting (handleSubmit vs (form_run vs es (useForm init)))
           = isSubmitting (form_run vs es (useForm init)) \<and>
         errors (handleSubmit vs (form_run vs es (useForm init))) f
           = Some (errorMessage (validator v))"
proof -
  let ?s = "form_run vs es (useForm init)"
  have "form_inv init ?s" by (rule form_inv_run [OF form_inv_useForm])
  then have iv: "initialValues ?s = init" by (rule form_inv_initialValues)
  obtain errs passed where
    r: "validate_fields vs (form_values ?s) (map fst (initialValues ?s)) (errors ?s) = (errs, passed)"
    by (cases "validate_fields vs (form_values ?s) (map fst (initialValues ?s)) (errors ?s)")
  from assms(2) iv have "f \<in> set (map fst (initialValues ?s))" by simp
  with validate_fields_invalid
    [where vs = vs and f = f and validator = validator and vals = "form_values ?s" and v = v
       and fs = "map fst (initialValues ?s)" and errs = "errors ?s", OF assms(1,3,4)] r
  have "\<not> passed" "errs f = Some (errorMessage (validator v))" by simp_all
  then show ?thesis by (simp add: handleSubmit_def r)
qed

lemmas form_eval = useForm_def handleChange_def handleBlur_def handleFocus_def handleSubmit_def
  onSubmit_settled_def resetFields_def validate_field_def set_field_def form_values_def
  initialValues_def deref_def example_validations_def Let_def

theorem submit_with_invalid_field_is_blocked_witness:
  "example_validations ''email'' =
     Some (\<lambda>v. \<lparr>isValid = (CHR ''@'' \<in> set v), errorMessage = ''Email is invalid''\<rparr>) \<and>
   ''email'' \<in> fst ` set [(''username'', ''''), (''email'', '''')] \<and>
   map_of (form_values (form_run example_validations
       [Change ''username'' ''alice'', Change ''email'' ''bad'']
       (useForm [(''username'', ''''), (''email'', '''')]))) ''email'' = Some ''bad'' \<and>
   \<not> isValid \<lparr>isValid = (CHR ''@'' \<in> set ''bad''), errorMessage = ''Email is invalid''\<rparr> \<and>
   submitted (handleSubmit example_validations (form_run example_validations
       [Change ''username'' ''alice'', Change ''email'' ''bad'']
       (useForm [(''username'', ''''), (''email'', '''')]))) = [] \<and>
   \<not> isSubmitting (handleSubmit example_validations (form_run example_validations
       [Change ''username'' ''alice'', Change ''email'' ''bad'']
       (useForm [(''username'', ''''), (''email'', '''')]))) \<and>
   errors (handleSubmit example_validations (form_run example_validations
       [Change ''username'' ''alice'', Change ''email'' ''bad'']
       (useForm [(''username'', ''''), (''email'', '''')]))) ''email'' = Some ''Email is invalid''"
  using submit_with_invalid_field_is_blocked
    [of example_validations "''email''"
        "\<lambda>v. \<lparr>isValid = (CHR ''@'' \<in> set v), errorMessage = ''Email is invalid''\<rparr>"
        "[(''username'', ''''), (''email'', '''')]"
        "[Change ''username'' ''alice'', Change ''email'' ''bad'']" "''bad''"]
  by (simp add: form_eval)

lemma submit_inv_step:
  assumes "submit_inv s" and "form_sequential vs [e] s"
  shows "submit_inv (form_step vs e s)"
proof (cases e)
  case Submit
  with assms show ?thesis
    by (auto simp: submit_inv_def handleSubmit_def Let_def split: prod.splits)
next
  case (Settled outcome)
  with assms show ?thesis
    by (auto simp: submit_inv_def onSubmit_settled_def split: submit_outcome.splits)
qed (use assms in \<open>simp_all add: submit_inv_def handleChange_def handleBlur_def
      handleFocus_def resetFields_def\<close>)

lemma submit_inv_run:
  "submit_inv s \<Longrightarrow> form_sequential vs es s \<Longrightarrow> submit_inv (form_run vs es s)"
proof (induction es arbitrary: s)
  case Nil
  then show ?case by simp
next
  case (Cons e es)
  from Cons.prems have "form_sequential vs [e] s" "form_sequential vs es (form_step vs e s)"
    by simp_all
  with Cons.prems(1) Cons.IH show ?case by (simp add: submit_inv_step)
qed

text \<open>
  Claim C2, for submit attempts that do not overlap, which the controller leaves to its
  caller. \<open>isSubmitting\<close> is false at construction. When no \<open>handleSubmit\<close> starts while
  an \<^verbatim>\<open>onSubmit\<close> is pending, the flag is true exactly while an \<^verbatim>\<open>onSubmit\<close> is pending:
  it is false before each \<open>handleSubmit\<close> and true from a submit that passes validation
  until its \<^verbatim>\<open>onSubmit\<close> settles. A submit that passes validation sets the flag, the
  other handlers and \<open>resetFields\<close> leave it, and the settling of \<^verbatim>\<open>onSubmit\<close> clears
  it, whether it succeeded or raised.
\<close>

theorem is_submitting_tracks_pending_submit:
  "\<not> isSubmitting (useForm init) \<and>
   (form_sequential vs es (useForm init) \<longrightarrow>
      (isSubmitting (form_run vs es (useForm init)) \<longleftrightarrow>
         0 < pending (form_run vs es (useForm init)))) \<and>
   (snd (validate_fields vs (form_values s) (map fst (initialValues s)) (errors s)) \<longrightarrow>
      isSubmitting (handleSubmit vs s) \<and> pending (handleSubmit vs s) = Suc (pending s)) \<and>
   isSubmitting (form_step vs (Change f v) s) = isSubmitting s \<and>
   isSubmitting (form_step vs (Blur f) s) = isSubmitting s \<and>
   isSubmitting (form_step vs (Focus f) s) = isSubmitting s \<and>
   isSubmitting (form_step vs Reset s) = isSubmitting s \<and>
   \<not> isSubmitting (onSubmit_settled Fulfilled s) \<and>
   \<not> isSubmitting (onSubmit_settled (Raised msg) s)"
proof (intro conjI impI)
  show "\<not> isSubmitting (useForm init)" by (simp add: useForm_def)
next
  assume "form_sequential vs es (useForm init)"
  moreover have "submit_inv (useForm init)" by (simp add: submit_inv_def useForm_def)
  ultimately have "submit_inv (form_run vs es (useForm init))" by (simp add: submit_inv_run)
  then show "isSubmitting (form_run vs es (useForm init)) \<longleftrightarrow>
         0 < pending (form_run vs es (useForm init))"
    by (auto simp: submit_inv_def)
next
  assume a: "snd (validate_fields vs (form_values s) (map fst (initialValues s)) (errors s))"
  obtain errs passed where
    r: "validate_fields vs (form_values s) (map fst (initialValues s)) (errors s) = (errs, passed)"
    by (cases "validate_fields vs (form_values s) (map fst (initialValues s)) (errors s)")
  with a have "passed" by simp
  then show "isSubmitting (handleSubmit vs s)" "pending (handleSubmit vs s) = Suc (pending s)"
    by (simp_all add: handleSubmit_def r)
qed (simp_all add: handleChange_def handleBlur_def handleFocus_def resetFields_def
    onSubmit_settled_def)

theorem is_submitting_tracks_pending_submit_witness:
  "form_sequential example_validations
     [Change ''username'' ''alice'', Change ''email'' ''alice@x.com'', Submit, Focus ''email'']
     (useForm [(''username'', ''''), (''email'', '''')]) \<and>
   isSubmitting (form_run example_validations
     [Change ''username'' ''alice'', Change ''email'' ''alice@x.com'', Submit, Focus ''email'']
     (useForm [(''username'', ''''), (''email'', '''')])) \<and>
   submitted (form_run example_validations
     [Change ''username'' ''alice'', Change ''email'' ''alice@x.com'', Submit, Focus ''email'']
     (useForm [(''username'', ''''), (''email'', '''')]))
     = [[(''username'', ''alice''), (''email'', ''alice@x.com'')]] \<and>
   \<not> isSubmitting (form_run example_validations
     [Change ''username'' ''alice'', Change ''email'' ''alice@x.com'', Submit, Focus ''email'',
      Settled (Raised ''rejected'')]
     (useForm [(''username'', ''''), (''email'', '''')])) \<and>
   snd (validate_fields example_validations
     (form_values (handleChange ''email'' ''a@b'' (handleChange ''username'' ''al''
        (useForm [(''username'', ''''), (''email'', '''')]))))
     (map fst (initialValues (handleChange ''email'' ''a@b'' (handleChange ''username'' ''al''
        (useForm [(''username'', ''''), (''email'', '''')])))))
     (errors (handleChange ''email'' ''a@b'' (handleChange ''username'' ''al''
        (useForm [(''username'', ''''), (''email'', '''')]))))) \<and>
   isSubmitting (handleSubmit example_validations
     (handleChange ''email'' ''a@b'' (handleChange ''username'' ''al''
        (useForm [(''username'', ''''), (''email'', '''')]))))"
  using is_submitting_tracks_pending_submit
    [of "[(''username'', ''''), (''email'', '''')]" example_validations
        "[Change ''username'' ''alice'', Change ''email'' ''alice@x.com'', Submit, Focus ''email'']"
        "handleChange ''email'' ''a@b'' (handleChange ''username'' ''al''
           (useForm [(''username'', ''''), (''email'', '''')]))"
        "''f''" "''v''" "''m''"]
  by (simp add: form_eval)

text \<open>
  The controller does not keep a second \<open>handleSubmit\<close> from starting while an
  \<^verbatim>\<open>onSubmit\<close> is pending. Then the flag is true before that \<open>handleSubmit\<close> starts, and
  once the first \<^verbatim>\<open>onSubmit\<close> settles it is false while the second is still pending.
\<close>

theorem is_submitting_overlapping_submits_counterexample:
  "isSubmitting (form_run example_validations
     [Change ''username'' ''alice'', Change ''email'' ''alice@x.com'', Submit]
     (useForm [(''username'', ''''), (''email'', '''')])) \<and>
   pending (form_run example_validations
     [Change ''username'' ''alice'', Change ''email'' ''alice@x.com'', Submit, Submit,
      Settled Fulfilled]
     (useForm [(''username'', ''''), (''email'', '''')])) = 1 \<and>
   \<not> isSubmitting (form_run example_validations
     [Change ''username'' ''alice'', Change ''email'' ''alice@x.com'', Submit, Submit,
      Settled Fulfilled]
     (useForm [(''username'', ''''), (''email'', '''')]))"
  by (simp add: form_eval)

text \<open>
  Claim C3. After any events, \<open>resetFields\<close> makes \<open>values\<close> equal to the original
  initial values, through an object of its own and not the stored one, empties
  \<open>errors\<close> and leaves \<open>isSubmitting\<close>; and no later event changes the stored initial
  values.
\<close>

theorem reset_restores_initial_values:
  "form_values (resetFields (form_run vs es (useForm init))) = init \<and>
   values_ref (resetFields (form_run vs es (useForm init)))
     \<noteq> initial_ref (resetFields (form_run vs es (useForm init))) \<and>
   store (resetFields (form_run vs es (useForm init)))
     (values_ref (form_run vs es (useForm init)))
     = store (form_run vs es (useForm init)) (values_ref (form_run vs es (useForm init))) \<and>
   errors (resetFields (form_run vs es (useForm init))) = (\<lambda>f. None) \<and>
   isSubmitting (resetFields (form_run vs es (useForm init)))
     = isSubmitting (form_run vs es (useForm init)) \<and>
   initialValues (form_run vs es' (resetFields (form_run vs es (useForm init)))) = init \<and>
   initial_ref (form_run vs es' (resetFields (form_run vs es (useForm init)))) = 0"
proof -
  let ?s = "form_run vs es (useForm init)"
  have inv: "form_inv init ?s" by (rule form_inv_run [OF form_inv_useForm])
  then have iv: "initialValues ?s = init" by (rule form_inv_initialValues)
  have inv': "form_inv init (resetFields ?s)"
    using form_inv_step [OF inv, of vs Reset] by simp
  have 1: "form_values (resetFields ?s) = init"
    by (simp add: resetFields_def form_values_def deref_def iv)
  have 2: "values_ref (resetFields ?s) \<noteq> initial_ref (resetFields ?s)"
    using inv' by (simp add: form_inv_def)
  have 3: "store (resetFields ?s) (values_ref ?s) = store ?s (values_ref ?s)"
    using inv by (simp add: resetFields_def form_inv_def)
  have 4: "errors (resetFields ?s) = (\<lambda>f. None)" by (simp add: resetFields_def)
  have 5: "isSubmitting (resetFields ?s) = isSubmitting ?s" by (simp add: resetFields_def)
  have 6: "initialValues (form_run vs es' (resetFields ?s)) = init"
    by (rule form_inv_initialValues [OF form_inv_run [OF inv']])
  have ref: "\<And>e s. initial_ref (form_step vs e s) = initial_ref s"
    subgoal for e s
      by (cases e)
        (simp_all add: handleChange_def handleBlur_def handleFocus_def handleSubmit_def
          onSubmit_settled_def resetFields_def Let_def
          split: prod.splits submit_outcome.splits)
    done
  have run: "\<And>es s. initial_ref (form_run vs es s) = initial_ref s"
    subgoal for es s by (induction es arbitrary: s) (simp_all add: ref)
    done
  have 7: "initial_ref (form_run vs es' (resetFields ?s)) = 0"
    by (simp add: run resetFields_def useForm_def)
  from 1 2 3 4 5 6 7 show ?thesis by blast
qed

end
